theory Spec2Isabelle
  imports Complex_Main "HOL-Library.Sublist" "HOL-Library.Log_Nat" "HOL-Library.Word"
begin

section \<open>ImageDownloader.download of redcaps/downloaders/image_downloader.py\<close>

text \<open>
  The class holds one immutable field, \<open>crop_resize\<close>, and one method, \<open>download\<close>.
  The method calls into three libraries (requests, Pillow, os); everything between those
  calls is integer and floating-point arithmetic of its own. The arithmetic is embedded
  exactly, IEEE 754 binary64 rounding included. The library calls are fields of a record
  \<open>world\<close>, so that every theorem about \<open>download\<close> holds for whatever the libraries
  do; where a property needs a documented fact of a library, the fact is a named predicate
  on the world and a hypothesis of the theorem.
\<close>

subsection \<open>Exceptions\<close>

text \<open>
  The subclasses of Python's \<open>Exception\<close> that the method's own arithmetic raises, and
  the ones the libraries raise. \<open>KeyboardInterrupt\<close> and \<open>SystemExit\<close> are not
  subclasses of \<open>Exception\<close> and are outside the model.
\<close>

datatype py_exception =
    ZeroDivisionError
  | OverflowError
  | ValueError
  | MemoryError
  | OSError
  | RequestException
  | UnidentifiedImageError

text \<open>Sequencing of two steps, the first of which may raise.\<close>

definition and_then :: "py_exception + 'a \<Rightarrow> ('a \<Rightarrow> py_exception + 'b) \<Rightarrow> py_exception + 'b" where
  "and_then r f = (case r of Inl e \<Rightarrow> Inl e | Inr x \<Rightarrow> f x)"

subsection \<open>Python floats\<close>

text \<open>
  A Python float is an IEEE 754 binary64 value: a finite one is a rational number
  \<open>n * 2 ^ k\<close> with \<open>\<bar>n\<bar> < 2 ^ 53\<close> and \<open>- 1074 \<le> k\<close>, of magnitude below \<open>2 ^ 1024\<close>.
  \<open>round_to_double\<close> is the rounding every float operation applies to its exact result:
  to the nearest representable value, ties to the even significand, subnormals below
  \<open>2 ^ (- 1022)\<close>, infinity from \<open>2 ^ 1024\<close> on.
\<close>

datatype pyfloat = Finite rat | PosInf | NegInf | NaN

definition pow2 :: "int \<Rightarrow> rat" where
  "pow2 e = 2 powi e"

definition round_half_even :: "rat \<Rightarrow> int" where
  "round_half_even x =
     (let f = \<lfloor>x\<rfloor>; d = x - of_int f
      in if d < 1 / 2 then f else if 1 / 2 < d then f + 1 else if even f then f else f + 1)"

text \<open>The binary exponent of a nonzero rational: \<open>2 ^ binade x \<le> \<bar>x\<bar> < 2 ^ (binade x + 1)\<close>.\<close>

definition binade :: "rat \<Rightarrow> int" where
  "binade x =
     (let c = bitlen \<bar>fst (quotient_of x)\<bar> - bitlen (snd (quotient_of x))
      in if \<bar>x\<bar> < pow2 c then c - 1 else c)"

definition round_to_double :: "rat \<Rightarrow> pyfloat" where
  "round_to_double x =
     (if x = 0 then Finite 0
      else let q = pow2 (max (binade x) (- 1022) - 52);
               y = of_int (round_half_even (x / q)) * q
           in if pow2 1024 \<le> \<bar>y\<bar> then (if 0 < x then PosInf else NegInf) else Finite y)"

text \<open>\<open>float(n)\<close> for an int \<open>n\<close>: correctly rounded, OverflowError when out of range.\<close>

definition py_float :: "int \<Rightarrow> py_exception + pyfloat" where
  "py_float n =
     (case round_to_double (of_int n) of Finite y \<Rightarrow> Inr (Finite y) | _ \<Rightarrow> Inl OverflowError)"

text \<open>\<open>a / b\<close> on floats: ZeroDivisionError on a zero divisor, IEEE division otherwise.\<close>

fun float_truediv :: "pyfloat \<Rightarrow> pyfloat \<Rightarrow> py_exception + pyfloat" where
  "float_truediv (Finite a) (Finite b) =
     (if b = 0 then Inl ZeroDivisionError else Inr (round_to_double (a / b)))"
| "float_truediv NaN _ = Inr NaN"
| "float_truediv _ NaN = Inr NaN"
| "float_truediv (Finite a) _ = Inr (Finite 0)"
| "float_truediv PosInf (Finite b) =
     (if b = 0 then Inl ZeroDivisionError else Inr (if 0 < b then PosInf else NegInf))"
| "float_truediv NegInf (Finite b) =
     (if b = 0 then Inl ZeroDivisionError else Inr (if 0 < b then NegInf else PosInf))"
| "float_truediv _ _ = Inr NaN"

text \<open>\<open>a * b\<close> on floats: IEEE multiplication, which overflows to infinity silently.\<close>

fun float_mul :: "pyfloat \<Rightarrow> pyfloat \<Rightarrow> pyfloat" where
  "float_mul (Finite a) (Finite b) = round_to_double (a * b)"
| "float_mul NaN _ = NaN"
| "float_mul _ NaN = NaN"
| "float_mul (Finite a) PosInf = (if a = 0 then NaN else if 0 < a then PosInf else NegInf)"
| "float_mul (Finite a) NegInf = (if a = 0 then NaN else if 0 < a then NegInf else PosInf)"
| "float_mul PosInf (Finite b) = (if b = 0 then NaN else if 0 < b then PosInf else NegInf)"
| "float_mul NegInf (Finite b) = (if b = 0 then NaN else if 0 < b then NegInf else PosInf)"
| "float_mul PosInf PosInf = PosInf"
| "float_mul NegInf NegInf = PosInf"
| "float_mul PosInf NegInf = NegInf"
| "float_mul NegInf PosInf = NegInf"

text \<open>
  \<open>round(x)\<close> of a float, one argument: the nearest int, ties to even; OverflowError on
  an infinity, ValueError on a NaN.
\<close>

fun py_round :: "pyfloat \<Rightarrow> py_exception + int" where
  "py_round (Finite x) = Inr (round_half_even x)"
| "py_round NaN = Inl ValueError"
| "py_round _ = Inl OverflowError"

text \<open>\<open>int(x)\<close> of a float truncates towards zero, with the same two errors.\<close>

fun py_int :: "pyfloat \<Rightarrow> py_exception + int" where
  "py_int (Finite x) = Inr (if 0 \<le> x then \<lfloor>x\<rfloor> else \<lceil>x\<rceil>)"
| "py_int NaN = Inl ValueError"
| "py_int _ = Inl OverflowError"

text \<open>
  \<open>a / b\<close> on two ints is true division in Python 3: the exact quotient, rounded once;
  OverflowError when the quotient is out of the float range.
\<close>

definition int_truediv :: "int \<Rightarrow> int \<Rightarrow> py_exception + pyfloat" where
  "int_truediv a b =
     (if b = 0 then Inl ZeroDivisionError
      else case round_to_double (of_int a / of_int b) of
             Finite y \<Rightarrow> Inr (Finite y)
           | _ \<Rightarrow> Inl OverflowError)"

subsection \<open>The resize and crop geometry (lines 57 to 73)\<close>

text \<open>
  \<open>scale = self.crop_resize / float(min(image_width, image_height))\<close>: the int
  \<open>crop_resize\<close> is converted to a float before the division.
\<close>

definition scale_factor :: "int \<Rightarrow> int \<times> int \<Rightarrow> py_exception + pyfloat" where
  "scale_factor crop_resize sz =
     and_then (py_float (min (fst sz) (snd sz))) (\<lambda>m.
     and_then (py_float crop_resize) (\<lambda>c.
       float_truediv c m))"

text \<open>\<open>int(round(d * scale))\<close>: the int \<open>d\<close> is converted to a float before the product.\<close>

definition scaled :: "int \<Rightarrow> pyfloat \<Rightarrow> py_exception + int" where
  "scaled d scale = and_then (py_float d) (\<lambda>x. py_round (float_mul x scale))"

definition new_size :: "int \<Rightarrow> int \<times> int \<Rightarrow> py_exception + int \<times> int" where
  "new_size crop_resize sz =
     and_then (scale_factor crop_resize sz) (\<lambda>scale.
     and_then (scaled (fst sz) scale) (\<lambda>new_width.
     and_then (scaled (snd sz) scale) (\<lambda>new_height.
       Inr (new_width, new_height))))"

text \<open>The box \<open>(new_left, new_top, new_right, new_bottom)\<close> of lines 64 to 73.\<close>

definition crop_box :: "int \<Rightarrow> int \<times> int \<Rightarrow> py_exception + int \<times> int \<times> int \<times> int" where
  "crop_box crop_resize nsz =
     (let new_width = fst nsz; new_height = snd nsz
      in if new_height \<le> new_width then
           and_then (and_then (int_truediv (new_width - crop_resize) 2) py_int) (\<lambda>new_left.
             Inr (new_left, 0, new_left + crop_resize, crop_resize))
         else
           and_then (and_then (int_truediv (new_height - crop_resize) 2) py_int) (\<lambda>new_top.
             Inr (0, new_top, crop_resize, new_top + crop_resize)))"

subsection \<open>The libraries\<close>

type_synonym bytes = "8 word list"

text \<open>The three attributes of a requests \<open>Response\<close> that the method reads.\<close>

record response =
  status_code :: int
  final_url :: string
  content :: bytes

text \<open>
  The library calls of the method, in the order it makes them. \<open>'img\<close> is Pillow's
  image object and \<open>'fs\<close> the state of the file system. A call that raises returns
  \<open>Inl\<close>; the two calls that write return the state they leave behind in either case.
  The second argument of \<open>os_makedirs\<close> is its keyword \<open>exist_ok\<close>.
  \<open>requests_get\<close> and \<open>image_open\<close> are functions of their argument alone: the
  network content is taken to be stable and the decoder to be deterministic.
\<close>

record ('img, 'fs) world =
  requests_get :: "string \<Rightarrow> py_exception + response"
  image_open :: "bytes \<Rightarrow> py_exception + 'img"
  image_convert_rgb :: "'img \<Rightarrow> py_exception + 'img"
  image_size :: "'img \<Rightarrow> int \<times> int"
  image_resize :: "'img \<Rightarrow> int \<times> int \<Rightarrow> py_exception + 'img"
  image_crop :: "'img \<Rightarrow> int \<times> int \<times> int \<times> int \<Rightarrow> py_exception + 'img"
  os_makedirs :: "string \<Rightarrow> bool \<Rightarrow> 'fs \<Rightarrow> (py_exception + unit) \<times> 'fs"
  image_save :: "'img \<Rightarrow> string \<Rightarrow> 'fs \<Rightarrow> (py_exception + unit) \<times> 'fs"

text \<open>
  \<open>os.path.dirname\<close> of posixpath: the path up to and including its last slash, then
  without trailing slashes unless it consists of slashes only.
\<close>

definition dirname :: "string \<Rightarrow> string" where
  "dirname p =
     (let head = rev (dropWhile (\<lambda>c. c \<noteq> CHR ''/'') (rev p))
      in if head \<noteq> [] \<and> head \<noteq> replicate (length head) (CHR ''/'')
         then rev (dropWhile (\<lambda>c. c = CHR ''/'') (rev head))
         else head)"

subsection \<open>download\<close>

text \<open>Lines 57 to 76: the geometry, then \<open>pil_image.resize(...).crop(...)\<close>.\<close>

definition resize_and_crop :: "('img, 'fs) world \<Rightarrow> int \<Rightarrow> 'img \<Rightarrow> py_exception + 'img" where
  "resize_and_crop W crop_resize pil_image =
     and_then (new_size crop_resize (image_size W pil_image)) (\<lambda>nsz.
     and_then (crop_box crop_resize nsz) (\<lambda>box.
     and_then (image_resize W pil_image nsz) (\<lambda>resized.
       image_crop W resized box)))"

text \<open>
  Lines 44 to 76: what the method hands to \<open>save\<close>. \<open>None\<close> is the \<open>return False\<close>
  of line 49, \<open>Some (Inl e)\<close> an exception, \<open>Some (Inr im)\<close> the image.
\<close>

definition fetch_image ::
  "('img, 'fs) world \<Rightarrow> int \<Rightarrow> string \<Rightarrow> (py_exception + 'img) option" where
  "fetch_image W crop_resize src =
     (case requests_get W src of
        Inl e \<Rightarrow> Some (Inl e)
      | Inr resp \<Rightarrow>
          if status_code resp \<noteq> 200 \<or> sublist ''removed.png'' (final_url resp) then None
          else Some (
            and_then (image_open W (content resp)) (\<lambda>opened.
            and_then (image_convert_rgb W opened) (\<lambda>pil_image.
              if 0 < crop_resize then resize_and_crop W crop_resize pil_image
              else Inr pil_image))))"

text \<open>
  The whole method: the result and the file system it leaves. Every \<open>Inl\<close> is caught by
  \<open>except Exception\<close> of line 84 and becomes \<open>False\<close>. Line 79 is
  \<open>os.makedirs(os.path.dirname(save_to), exist_ok=True)\<close>.
\<close>

definition download ::
  "('img, 'fs) world \<Rightarrow> int \<Rightarrow> string \<Rightarrow> string \<Rightarrow> 'fs \<Rightarrow> bool \<times> 'fs" where
  "download W crop_resize src save_to fs =
     (case fetch_image W crop_resize src of
        None \<Rightarrow> (False, fs)
      | Some (Inl e) \<Rightarrow> (False, fs)
      | Some (Inr pil_image) \<Rightarrow>
          (case os_makedirs W (dirname save_to) True fs of
             (Inl e, fs1) \<Rightarrow> (False, fs1)
           | (Inr u, fs1) \<Rightarrow>
               (case image_save W pil_image save_to fs1 of
                  (Inl e, fs2) \<Rightarrow> (False, fs2)
                | (Inr u, fs2) \<Rightarrow> (True, fs2))))"

subsection \<open>Facts and conditions of the libraries\<close>

text \<open>
  Pillow: \<open>Image.crop(box)\<close> returns an image whose size is the size of the box.
\<close>

definition crop_returns_box_size :: "('img, 'fs) world \<Rightarrow> bool" where
  "crop_returns_box_size W =
     (\<forall>im l t r b im'. image_crop W im (l, t, r, b) = Inr im' \<longrightarrow> image_size W im' = (r - l, b - t))"

text \<open>
  os: \<open>os.makedirs('', exist_ok=True)\<close> raises FileNotFoundError: the empty path names
  no directory, and \<open>exist_ok\<close> only forgives a directory that exists.
\<close>

definition makedirs_rejects_empty :: "('img, 'fs) world \<Rightarrow> bool" where
  "makedirs_rejects_empty W = (\<forall>fs. \<exists>e. fst (os_makedirs W [] True fs) = Inl e)"

text \<open>
  Three conditions on the file system and the encoder, which hold of some and fail of
  others. \<open>os.makedirs(d, exist_ok=True)\<close>, run again on the state it left, leaves
  that state as it is and ends the same way (normally or with an exception); this is
  what \<open>exist_ok=True\<close> is for, and it fails where a directory cannot be entered
  again. \<open>save\<close>, run again on the state it left, does the same; this needs an encoder
  whose output is a function of the image, and fails for one that stamps the file with
  the time of writing, or where a file once written cannot be overwritten. And saving a
  file does not undo the directory that holds it.
\<close>

definition makedirs_idempotent :: "('img, 'fs) world \<Rightarrow> bool" where
  "makedirs_idempotent W =
     (\<forall>d fs r fs'. os_makedirs W d True fs = (r, fs') \<longrightarrow>
        (\<exists>r'. os_makedirs W d True fs' = (r', fs') \<and> isl r' = isl r))"

definition save_idempotent :: "('img, 'fs) world \<Rightarrow> bool" where
  "save_idempotent W =
     (\<forall>im p fs r fs'. image_save W im p fs = (r, fs') \<longrightarrow>
        (\<exists>r'. image_save W im p fs' = (r', fs') \<and> isl r' = isl r))"

definition save_keeps_directory :: "('img, 'fs) world \<Rightarrow> bool" where
  "save_keeps_directory W =
     (\<forall>im p fs r fs'. os_makedirs W (dirname p) True fs = (Inr (), fs) \<longrightarrow>
        image_save W im p fs = (r, fs') \<longrightarrow> os_makedirs W (dirname p) True fs' = (Inr (), fs'))"

subsection \<open>A concrete world\<close>

text \<open>
  Four responses and a small instance of the libraries: an image is its size, the file
  system a list of paths, each a directory or a file holding an image. \<open>makedirs\<close>
  raises on the empty path, on a path that is a file, and on a directory that exists
  unless \<open>exist_ok\<close> is set; \<open>save\<close> raises on a directory.
\<close>

datatype demo_node = Dir | File "int \<times> int"

definition demo_served :: response where
  "demo_served = \<lparr>status_code = 200, final_url = ''https://i.imgur.com/a.jpg'', content = [255, 216, 255]\<rparr>"

definition demo_not_found :: response where
  "demo_not_found = \<lparr>status_code = 404, final_url = ''https://i.imgur.com/a.jpg'', content = []\<rparr>"

definition demo_removed :: response where
  "demo_removed = \<lparr>status_code = 200, final_url = ''https://i.imgur.com/removed.png'', content = [137, 80, 78, 71]\<rparr>"

definition demo_corrupt :: response where
  "demo_corrupt = \<lparr>status_code = 200, final_url = ''https://i.imgur.com/a.jpg'', content = []\<rparr>"

definition demo_makedirs ::
  "string \<Rightarrow> bool \<Rightarrow> (string \<times> demo_node) list \<Rightarrow>
     (py_exception + unit) \<times> (string \<times> demo_node) list" where
  "demo_makedirs d exist_ok fs =
     (if d = [] then (Inl OSError, fs)
      else case map_of fs d of
             None \<Rightarrow> (Inr (), (d, Dir) # fs)
           | Some Dir \<Rightarrow> (if exist_ok then (Inr (), fs) else (Inl OSError, fs))
           | Some (File im) \<Rightarrow> (Inl OSError, fs))"

definition demo_save ::
  "int \<times> int \<Rightarrow> string \<Rightarrow> (string \<times> demo_node) list \<Rightarrow>
     (py_exception + unit) \<times> (string \<times> demo_node) list" where
  "demo_save im p fs =
     (if map_of fs p = Some Dir then (Inl OSError, fs)
      else (Inr (), (p, File im) # filter (\<lambda>entry. fst entry \<noteq> p) fs))"

definition demo_world ::
  "response \<Rightarrow> int \<times> int \<Rightarrow> (int \<times> int, (string \<times> demo_node) list) world" where
  "demo_world resp sz =
     \<lparr>requests_get = (\<lambda>src. Inr resp),
      image_open = (\<lambda>data. if data = [] then Inl UnidentifiedImageError else Inr sz),
      image_convert_rgb = Inr,
      image_size = (\<lambda>im. im),
      image_resize = (\<lambda>im nsz. if fst nsz < 1 \<or> snd nsz < 1 then Inl ValueError else Inr nsz),
      image_crop = (\<lambda>im box. case box of (l, t, r, b) \<Rightarrow> Inr (r - l, b - t)),
      os_makedirs = demo_makedirs,
      image_save = demo_save\<rparr>"

text \<open>
  The same libraries with an encoder that stamps each file with the time of writing (a
  creation date, as document formats carry one): the file system is a clock and a list
  of files, each the image it holds and its stamp.
\<close>

definition stamp_world ::
  "(int \<times> int, nat \<times> (string \<times> (int \<times> int) \<times> nat) list) world" where
  "stamp_world =
     \<lparr>requests_get = (\<lambda>src. Inr demo_served),
      image_open = (\<lambda>data. if data = [] then Inl UnidentifiedImageError else Inr (800, 600)),
      image_convert_rgb = Inr,
      image_size = (\<lambda>im. im),
      image_resize = (\<lambda>im nsz. if fst nsz < 1 \<or> snd nsz < 1 then Inl ValueError else Inr nsz),
      image_crop = (\<lambda>im box. case box of (l, t, r, b) \<Rightarrow> Inr (r - l, b - t)),
      os_makedirs = (\<lambda>d exist_ok fs. if d = [] then (Inl OSError, fs) else (Inr (), fs)),
      image_save = (\<lambda>im p fs.
        (Inr (), (fst fs + 1, (p, im, fst fs) # filter (\<lambda>entry. fst entry \<noteq> p) (snd fs))))\<rparr>"

section \<open>Arithmetic of the float model\<close>

subsection \<open>Powers of two and the binary exponent\<close>

lemma pow2_pos: "0 < pow2 e"
  by (simp add: pow2_def zero_less_power_int)

lemma pow2_add: "pow2 (a + b) = pow2 a * pow2 b"
  by (simp add: pow2_def power_int_add)

lemma pow2_diff: "pow2 (a - b) = pow2 a / pow2 b"
  by (simp add: pow2_def power_int_diff)

lemma pow2_nat: "0 \<le> e \<Longrightarrow> pow2 e = 2 ^ nat e"
  by (simp add: pow2_def power_int_def)

lemma pow2_less_iff: "pow2 a < pow2 b \<longleftrightarrow> a < b"
proof
  assume "pow2 a < pow2 b"
  show "a < b"
  proof (rule ccontr)
    assume "\<not> a < b"
    then have "b \<le> a" by simp
    then have "pow2 b \<le> pow2 a"
      unfolding pow2_def by (intro power_int_increasing) auto
    with \<open>pow2 a < pow2 b\<close> show False by simp
  qed
next
  assume "a < b"
  then show "pow2 a < pow2 b"
    unfolding pow2_def by (intro power_int_strict_increasing) auto
qed

lemma pow2_le_iff: "pow2 a \<le> pow2 b \<longleftrightarrow> a \<le> b"
  using pow2_less_iff [of b a] by (auto simp: not_less [symmetric])

lemma binade_bounds:
  assumes "x \<noteq> 0"
  shows "pow2 (binade x) \<le> \<bar>x\<bar> \<and> \<bar>x\<bar> < pow2 (binade x + 1)"
proof -
  obtain a b where q: "quotient_of x = (a, b)" by (cases "quotient_of x")
  have bpos: "0 < b" using quotient_of_denom_pos [OF q] .
  have x: "x = of_int a / of_int b" using quotient_of_div [OF q] .
  have "a \<noteq> 0" using assms x by auto
  then have apos: "0 < \<bar>a\<bar>" by simp
  define la where "la = bitlen \<bar>a\<bar>"
  define lb where "lb = bitlen b"
  have la: "2 ^ nat (la - 1) \<le> \<bar>a\<bar>" "\<bar>a\<bar> < 2 ^ nat la"
    using bitlen_bounds [OF apos] by (simp_all add: la_def)
  have lb: "2 ^ nat (lb - 1) \<le> b" "b < 2 ^ nat lb"
    using bitlen_bounds [OF bpos] by (simp_all add: lb_def)
  have la1: "1 \<le> la" using apos by (simp add: la_def bitlen_alt_def)
  have lb1: "1 \<le> lb" using bpos by (simp add: lb_def bitlen_alt_def)
  have ra: "pow2 (la - 1) \<le> of_int \<bar>a\<bar>" "(of_int \<bar>a\<bar> :: rat) < pow2 la"
  proof -
    have "(of_int (2 ^ nat (la - 1)) :: rat) \<le> of_int \<bar>a\<bar>"
      using la(1) by (simp only: of_int_le_iff)
    then show "pow2 (la - 1) \<le> of_int \<bar>a\<bar>" using la1 by (simp add: pow2_nat)
    have "(of_int \<bar>a\<bar> :: rat) < of_int (2 ^ nat la)"
      using la(2) by (simp only: of_int_less_iff)
    then show "(of_int \<bar>a\<bar> :: rat) < pow2 la" using la1 by (simp add: pow2_nat)
  qed
  have rb: "pow2 (lb - 1) \<le> of_int b" "(of_int b :: rat) < pow2 lb"
  proof -
    have "(of_int (2 ^ nat (lb - 1)) :: rat) \<le> of_int b"
      using lb(1) by (simp only: of_int_le_iff)
    then show "pow2 (lb - 1) \<le> of_int b" using lb1 by (simp add: pow2_nat)
    have "(of_int b :: rat) < of_int (2 ^ nat lb)"
      using lb(2) by (simp only: of_int_less_iff)
    then show "(of_int b :: rat) < pow2 lb" using lb1 by (simp add: pow2_nat)
  qed
  have absx: "\<bar>x\<bar> = of_int \<bar>a\<bar> / of_int b"
    using bpos by (simp add: x abs_divide)
  have rbpos: "(0::rat) < of_int b" using bpos by simp
  define c where "c = la - lb"
  have lower: "pow2 (c - 1) \<le> \<bar>x\<bar>"
  proof -
    have "pow2 (c - 1) * of_int b \<le> pow2 (c - 1) * pow2 lb"
      using rb(2) pow2_pos [of "c - 1"] by (intro mult_left_mono) auto
    also have "\<dots> = pow2 (la - 1)" by (simp add: c_def pow2_add [symmetric])
    also have "\<dots> \<le> of_int \<bar>a\<bar>" by (rule ra(1))
    finally show ?thesis using rbpos by (simp add: absx pos_le_divide_eq)
  qed
  have upper: "\<bar>x\<bar> < pow2 (c + 1)"
  proof -
    have "of_int \<bar>a\<bar> < pow2 la" by (rule ra(2))
    also have "\<dots> = pow2 (c + 1) * pow2 (lb - 1)" by (simp add: c_def pow2_add [symmetric])
    also have "\<dots> \<le> pow2 (c + 1) * of_int b"
      using rb(1) pow2_pos [of "c + 1"] by (intro mult_left_mono) auto
    finally show ?thesis using rbpos by (simp add: absx pos_divide_less_eq)
  qed
  have b: "binade x = (if \<bar>x\<bar> < pow2 c then c - 1 else c)"
    by (simp add: binade_def q c_def la_def lb_def Let_def)
  show ?thesis
  proof (cases "\<bar>x\<bar> < pow2 c")
    case True
    then show ?thesis using lower by (simp add: b)
  next
    case False
    then show ?thesis using upper by (simp add: b)
  qed
qed

lemma binade_unique:
  assumes "pow2 e \<le> \<bar>x\<bar>" and "\<bar>x\<bar> < pow2 (e + 1)"
  shows "binade x = e"
proof -
  have "x \<noteq> 0" using assms(1) pow2_pos [of e] by auto
  from binade_bounds [OF this]
  have b: "pow2 (binade x) \<le> \<bar>x\<bar>" "\<bar>x\<bar> < pow2 (binade x + 1)" by simp_all
  have "pow2 e < pow2 (binade x + 1)" using assms(1) b(2) by simp
  then have 1: "e < binade x + 1" by (simp only: pow2_less_iff)
  have "pow2 (binade x) < pow2 (e + 1)" using assms(2) b(1) by simp
  then have 2: "binade x < e + 1" by (simp only: pow2_less_iff)
  from 1 2 show ?thesis by simp
qed

lemma round_half_even_error: "\<bar>of_int (round_half_even y) - y\<bar> \<le> 1 / 2"
proof -
  have "of_int \<lfloor>y\<rfloor> \<le> y" "y < of_int \<lfloor>y\<rfloor> + 1" by linarith+
  then show ?thesis
    by (auto simp: round_half_even_def Let_def)
qed

lemma round_half_even_of_int [simp]: "round_half_even (of_int k) = k"
  by (simp add: round_half_even_def Let_def)

lemma round_half_even_eqI:
  assumes "\<bar>y - of_int k\<bar> < 1 / 2"
  shows "round_half_even y = k"
proof -
  have e: "\<bar>of_int (round_half_even y) - y\<bar> \<le> 1 / 2" by (rule round_half_even_error)
  have "\<bar>(of_int (round_half_even y) :: rat) - of_int k\<bar> < 1"
    using e assms by linarith
  then have "\<bar>(of_int (round_half_even y - k) :: rat)\<bar> < 1" by simp
  then have "\<bar>round_half_even y - k\<bar> < 1"
    by (metis of_int_abs of_int_less_1_iff)
  then show ?thesis by simp
qed

lemma round_half_even_ge:
  assumes "of_int k - 1 / 2 < y"
  shows "k \<le> round_half_even y"
proof -
  have e: "\<bar>of_int (round_half_even y) - y\<bar> \<le> 1 / 2" by (rule round_half_even_error)
  have "(of_int k :: rat) - 1 < of_int (round_half_even y)"
    using e assms by linarith
  then have "(of_int (k - 1) :: rat) < of_int (round_half_even y)" by simp
  then have "k - 1 < round_half_even y" by (simp only: of_int_less_iff)
  then show ?thesis by simp
qed

subsection \<open>Representable values and the rounding error\<close>

lemma pow2_numeral [simp]: "pow2 (numeral n) = 2 ^ numeral n"
  by (simp add: pow2_def)

lemma pow2_neg_numeral [simp]: "pow2 (- numeral n) = 1 / 2 ^ numeral n"
  by (simp add: pow2_def power_int_minus_divide)

lemma pow2_0 [simp]: "pow2 0 = 1"
  by (simp add: pow2_def)

lemma round_to_double_exact:
  assumes x: "x = of_int k * pow2 j" and k: "\<bar>k\<bar> < 2 ^ 53" and j: "- 1074 \<le> j"
    and fin: "\<bar>x\<bar> < pow2 1024"
  shows "round_to_double x = Finite x"
proof (cases "x = 0")
  case True
  then show ?thesis by (simp add: round_to_double_def)
next
  case False
  define e where "e = binade x"
  define g where "g = max e (- 1022) - 52"
  have b: "pow2 e \<le> \<bar>x\<bar>" using binade_bounds [OF False] by (simp add: e_def)
  have "(of_int \<bar>k\<bar> :: rat) < of_int (2 ^ 53)" using k by (simp only: of_int_less_iff)
  then have "\<bar>of_int k :: rat\<bar> < pow2 53" by simp
  then have "\<bar>x\<bar> < pow2 53 * pow2 j"
    using pow2_pos [of j] by (simp add: x abs_mult)
  then have "pow2 e < pow2 (53 + j)" using b by (simp add: pow2_add)
  then have "e < 53 + j" by (simp only: pow2_less_iff)
  then have gj: "g \<le> j" using j by (simp add: g_def)
  have "pow2 j = pow2 (j - g) * pow2 g" by (simp add: pow2_add [symmetric])
  also have "pow2 (j - g) = of_int (2 ^ nat (j - g))" using gj by (simp add: pow2_nat)
  finally have xq: "x / pow2 g = of_int (k * 2 ^ nat (j - g))"
    using pow2_pos [of g] by (simp add: x)
  have "round_half_even (x / pow2 g) = k * 2 ^ nat (j - g)"
    by (simp only: xq round_half_even_of_int)
  then have "of_int (round_half_even (x / pow2 g)) * pow2 g = x / pow2 g * pow2 g"
    by (simp only: xq)
  then have "of_int (round_half_even (x / pow2 g)) * pow2 g = x"
    using pow2_pos [of g] by simp
  then show ?thesis
    using False fin by (simp add: round_to_double_def Let_def e_def [symmetric] g_def [symmetric])
qed

lemma round_to_double_error:
  assumes lo: "pow2 (- 1022) \<le> \<bar>x\<bar>" and hi: "\<bar>x\<bar> < pow2 1023"
  shows "\<exists>y. round_to_double x = Finite y \<and> \<bar>y - x\<bar> \<le> \<bar>x\<bar> / 2 ^ 53"
proof -
  have nz: "x \<noteq> 0" using lo pow2_pos [of "- 1022"] by auto
  define e where "e = binade x"
  have b: "pow2 e \<le> \<bar>x\<bar>" "\<bar>x\<bar> < pow2 (e + 1)"
    using binade_bounds [OF nz] by (simp_all add: e_def)
  have "pow2 (- 1022) < pow2 (e + 1)" using lo b(2) by (rule le_less_trans)
  then have "- 1022 < e + 1" by (simp only: pow2_less_iff)
  then have m: "max e (- 1022) = e" by simp
  define q where "q = pow2 (e - 52)"
  have qpos: "0 < q" by (simp add: q_def pow2_pos)
  define y where "y = of_int (round_half_even (x / q)) * q"
  have "\<bar>of_int (round_half_even (x / q)) - x / q\<bar> \<le> 1 / 2"
    by (rule round_half_even_error)
  then have "\<bar>of_int (round_half_even (x / q)) - x / q\<bar> * q \<le> 1 / 2 * q"
    using qpos by (intro mult_right_mono) auto
  moreover have "\<bar>of_int (round_half_even (x / q)) - x / q\<bar> * q = \<bar>y - x\<bar>"
  proof -
    have "y - x = (of_int (round_half_even (x / q)) - x / q) * q"
      using qpos by (simp add: y_def field_simps)
    then show ?thesis using qpos by (simp add: abs_mult)
  qed
  ultimately have err: "\<bar>y - x\<bar> \<le> q / 2" by simp
  have "q = pow2 e * pow2 (- 52)" by (simp only: q_def pow2_add [symmetric]) simp
  then have qe: "q / 2 = pow2 e / 2 ^ 53" by simp
  have "pow2 e / 2 ^ 53 \<le> \<bar>x\<bar> / 2 ^ 53" using b(1) by (simp add: divide_right_mono)
  with err qe have rel: "\<bar>y - x\<bar> \<le> \<bar>x\<bar> / 2 ^ 53" by simp
  have "\<bar>y\<bar> \<le> \<bar>x\<bar> + \<bar>x\<bar> / 2 ^ 53" using rel by linarith
  also have "\<dots> < pow2 1023 + pow2 1023" using hi by (intro add_strict_mono) (simp_all add: field_simps)
  also have "\<dots> = pow2 1024" by (simp add: pow2_def)
  finally have "\<not> pow2 1024 \<le> \<bar>y\<bar>" by simp
  then have "round_to_double x = Finite y"
    using nz by (simp add: round_to_double_def Let_def e_def [symmetric] m q_def [symmetric] y_def [symmetric])
  with rel show ?thesis by blast
qed

lemma of_int_small:
  assumes "\<bar>n\<bar> < 2 ^ 53"
  shows "\<bar>of_int n :: rat\<bar> < 2 ^ 53"
proof -
  have "(of_int \<bar>n\<bar> :: rat) < of_int (2 ^ 53)" using assms by (simp only: of_int_less_iff)
  then show ?thesis by simp
qed

lemma round_to_double_int:
  assumes "\<bar>n\<bar> < 2 ^ 53"
  shows "round_to_double (of_int n) = Finite (of_int n)"
proof (rule round_to_double_exact [where k = n and j = 0])
  show "(of_int n :: rat) = of_int n * pow2 0" by simp
  show "\<bar>n\<bar> < 2 ^ 53" by (rule assms)
  show "- 1074 \<le> (0::int)" by simp
  have "\<bar>of_int n :: rat\<bar> < 2 ^ 53" by (rule of_int_small [OF assms])
  also have "\<dots> \<le> pow2 1024" by simp
  finally show "\<bar>of_int n :: rat\<bar> < pow2 1024" .
qed

lemma py_float_exact: "\<bar>n\<bar> < 2 ^ 53 \<Longrightarrow> py_float n = Inr (Finite (of_int n))"
  by (simp add: py_float_def round_to_double_int)

text \<open>The scale, and the two products, for sizes and targets in range.\<close>

lemma scale_error:
  fixes t m :: rat
  assumes t: "1 \<le> t" "t \<le> 2 ^ 50" and m: "1 \<le> m" "m < 2 ^ 53"
  shows "\<exists>s. round_to_double (t / m) = Finite s \<and> \<bar>m * s - t\<bar> \<le> t / 2 ^ 53 \<and> 0 < s \<and> s \<le> 2 ^ 51"
proof -
  define r where "r = t / m"
  have rpos: "0 < r" using t m by (simp add: r_def)
  have r_lo: "1 / 2 ^ 53 \<le> r"
  proof -
    have "1 / 2 ^ 53 \<le> 1 / m" using m by (simp add: field_simps)
    also have "\<dots> \<le> t / m" using t m by (simp add: divide_right_mono)
    finally show ?thesis by (simp add: r_def)
  qed
  have r_hi: "r \<le> 2 ^ 50"
  proof -
    have "t / m \<le> t / 1" using t m by (intro divide_left_mono) auto
    then show ?thesis using t by (simp add: r_def)
  qed
  have lo: "pow2 (- 1022) \<le> \<bar>r\<bar>"
  proof -
    have "pow2 (- 1022) \<le> pow2 (- 53)" by (simp only: pow2_le_iff)
    also have "\<dots> = 1 / 2 ^ 53" by simp
    finally show ?thesis using r_lo rpos by simp
  qed
  have hi: "\<bar>r\<bar> < pow2 1023"
  proof -
    have "(2::rat) ^ 50 < pow2 1023" by simp
    then show ?thesis using r_hi rpos by simp
  qed
  from round_to_double_error [OF lo hi]
  obtain s where s: "round_to_double r = Finite s" "\<bar>s - r\<bar> \<le> \<bar>r\<bar> / 2 ^ 53" by blast
  have mr: "m * r = t" using m by (simp add: r_def)
  have "m * s - t = m * (s - r)" by (simp add: mr right_diff_distrib)
  then have "\<bar>m * s - t\<bar> = m * \<bar>s - r\<bar>" using m by (simp add: abs_mult)
  also have "\<dots> \<le> m * (\<bar>r\<bar> / 2 ^ 53)" using s(2) m by (intro mult_left_mono) auto
  also have "\<dots> = t / 2 ^ 53" using rpos mr by simp
  finally have e: "\<bar>m * s - t\<bar> \<le> t / 2 ^ 53" .
  have a: "\<bar>s - r\<bar> \<le> r / 2 ^ 53" using s(2) by (simp only: abs_of_pos [OF rpos])
  have "s - r \<le> \<bar>s - r\<bar>" by (rule abs_ge_self)
  with a have sr1: "s - r \<le> r / 2 ^ 53" by (rule order_trans [rotated])
  have "r - s \<le> \<bar>s - r\<bar>" using abs_ge_minus_self [of "s - r"] by simp
  with a have sr2: "r - s \<le> r / 2 ^ 53" by (rule order_trans [rotated])
  have "r / 2 ^ 53 < r" using rpos by simp
  with sr2 have spos: "0 < s" by linarith
  have "r / 2 ^ 53 \<le> r" using rpos by simp
  moreover have "(2::rat) ^ 51 = 2 * 2 ^ 50" by simp
  ultimately have "s \<le> 2 ^ 51" using sr1 r_hi by linarith
  then show ?thesis using s(1) e spos by (auto simp: r_def)
qed

lemma product_short:
  fixes t m s :: rat
  assumes t: "1 \<le> t" "t \<le> 2 ^ 50" and e: "\<bar>m * s - t\<bar> \<le> t / 2 ^ 53"
  shows "\<exists>p. round_to_double (m * s) = Finite p \<and> \<bar>p - t\<bar> < 1 / 2"
proof -
  define x where "x = m * s"
  define u where "u = t / 2 ^ 53"
  have u: "0 < u" "u \<le> 1 / 8"
  proof -
    show "0 < u" using t by (simp add: u_def)
    have "t / 2 ^ 53 \<le> 2 ^ 50 / 2 ^ 53" using t(2) by (rule divide_right_mono) simp
    then show "u \<le> 1 / 8" by (simp add: u_def)
  qed
  have "x - t \<le> \<bar>x - t\<bar>" by (rule abs_ge_self)
  with e have x_hi: "x - t \<le> u" by (simp add: x_def u_def)
  have "t - x \<le> \<bar>x - t\<bar>" using abs_ge_minus_self [of "x - t"] by simp
  with e have x_lo: "t - x \<le> u" by (simp add: x_def u_def)
  have xpos: "1 / 2 \<le> x" using x_lo u t by linarith
  have lo: "pow2 (- 1022) \<le> \<bar>x\<bar>"
  proof -
    have "pow2 (- 1022) \<le> pow2 (- 1)" by (simp only: pow2_le_iff)
    also have "\<dots> = 1 / 2" by (simp add: pow2_def)
    finally show ?thesis using xpos by simp
  qed
  have hi: "\<bar>x\<bar> < pow2 1023"
  proof -
    have "x \<le> 2 ^ 50 + 1 / 8" using x_hi u t by linarith
    also have "\<dots> < pow2 1023" by simp
    finally show ?thesis using xpos by simp
  qed
  from round_to_double_error [OF lo hi]
  obtain p where p: "round_to_double x = Finite p" "\<bar>p - x\<bar> \<le> \<bar>x\<bar> / 2 ^ 53" by blast
  have ax: "\<bar>x\<bar> = x" using xpos by simp
  define v where "v = x / 2 ^ 53"
  have pv: "\<bar>p - x\<bar> \<le> v" using p(2) by (simp only: ax v_def)
  have v: "v \<le> u + 1 / 8"
  proof -
    have "x / 2 ^ 53 \<le> (t + u) / 2 ^ 53" using x_hi by (intro divide_right_mono) auto
    also have "\<dots> = u + u / 2 ^ 53" by (simp add: u_def add_divide_distrib)
    also have "\<dots> \<le> u + 1 / 8" using u by (simp add: field_simps) 
    finally show ?thesis by (simp add: v_def)
  qed
  have "\<bar>p - t\<bar> \<le> \<bar>p - x\<bar> + \<bar>x - t\<bar>" by simp
  also have "\<dots> \<le> v + u" using pv e by (simp add: x_def u_def)
  also have "\<dots> < 1 / 2" using v u by linarith
  finally show ?thesis using p(1) by (auto simp: x_def)
qed

lemma product_long:
  fixes t m s d :: rat
  assumes t: "1 \<le> t" "t \<le> 2 ^ 50" and e: "\<bar>m * s - t\<bar> \<le> t / 2 ^ 53"
    and s: "0 < s" "s \<le> 2 ^ 51" and d: "m \<le> d" "d < 2 ^ 53"
  shows "\<exists>p. round_to_double (d * s) = Finite p \<and> t - 1 / 2 < p \<and> p < 2 ^ 105"
proof -
  define x where "x = d * s"
  define u where "u = t / 2 ^ 53"
  define c :: rat where "c = 1 - 1 / 2 ^ 53"
  have u: "0 < u" "u \<le> 1 / 8"
  proof -
    show "0 < u" using t by (simp add: u_def)
    have "t / 2 ^ 53 \<le> 2 ^ 50 / 2 ^ 53" using t(2) by (rule divide_right_mono) simp
    then show "u \<le> 1 / 8" by (simp add: u_def)
  qed
  have cpos: "0 < c" "c \<le> 1" by (simp_all add: c_def)
  have "t - m * s \<le> \<bar>m * s - t\<bar>" using abs_ge_minus_self [of "m * s - t"] by simp
  with e have ms: "t - u \<le> m * s" by (simp add: u_def)
  have "m * s \<le> d * s" using d(1) s(1) by (intro mult_right_mono) auto
  with ms have x_lo: "t - u \<le> x" by (simp add: x_def)
  have xpos: "1 / 2 \<le> x" using x_lo u t by linarith
  have dpos: "0 < d"
  proof (rule ccontr)
    assume "\<not> 0 < d"
    then have "d * s \<le> 0" using s(1) by (simp add: mult_le_0_iff)
    with xpos show False by (simp add: x_def)
  qed
  have x_hi: "x < 2 ^ 104"
  proof -
    have "d * s \<le> d * 2 ^ 51" using s(2) dpos by (intro mult_left_mono) auto
    also have "\<dots> < 2 ^ 53 * 2 ^ 51" using d(2) by (intro mult_strict_right_mono) auto
    also have "\<dots> = 2 ^ 104" by simp
    finally show ?thesis by (simp add: x_def)
  qed
  have lo: "pow2 (- 1022) \<le> \<bar>x\<bar>"
  proof -
    have "pow2 (- 1022) \<le> pow2 (- 1)" by (simp only: pow2_le_iff)
    also have "\<dots> = 1 / 2" by (simp add: pow2_def)
    finally show ?thesis using xpos by simp
  qed
  have hi: "\<bar>x\<bar> < pow2 1023"
  proof -
    have "(2::rat) ^ 104 < pow2 1023" by simp
    with x_hi have "x < pow2 1023" by (rule less_trans)
    then show ?thesis using xpos by simp
  qed
  from round_to_double_error [OF lo hi]
  obtain p where p: "round_to_double x = Finite p" "\<bar>p - x\<bar> \<le> \<bar>x\<bar> / 2 ^ 53" by blast
  have ax: "\<bar>x\<bar> = x" using xpos by simp
  have "x - p \<le> \<bar>p - x\<bar>" using abs_ge_minus_self [of "p - x"] by simp
  with p(2) have "x - p \<le> x / 2 ^ 53" by (simp only: ax)
  then have "x * c \<le> p" by (simp add: c_def right_diff_distrib)
  moreover have "(t - u) * c \<le> x * c" using x_lo cpos by (intro mult_right_mono) auto
  moreover have "(t - u) * c = t - u - (u - u / 2 ^ 53)"
    by (simp add: c_def u_def right_diff_distrib left_diff_distrib)
  moreover have "0 \<le> u / 2 ^ 53" using u by simp
  ultimately have "t - 2 * u \<le> p" by linarith
  then have "t - 1 / 2 < p" using u by linarith
  moreover have "p < 2 ^ 105"
  proof -
    have "p - x \<le> \<bar>p - x\<bar>" by (rule abs_ge_self)
    with p(2) have "p - x \<le> x / 2 ^ 53" by (simp only: ax)
    moreover have "x / 2 ^ 53 \<le> x" using xpos by simp
    moreover have "(2::rat) ^ 105 = 2 * 2 ^ 104" by simp
    ultimately show ?thesis using x_hi by linarith
  qed
  ultimately show ?thesis using p(1) by (auto simp: x_def)
qed

subsection \<open>The two conversions of the method\<close>

lemma half_exact:
  assumes "\<bar>n\<bar> < 2 ^ 53"
  shows "int_truediv n 2 = Inr (Finite (of_int n / 2))"
proof -
  have "round_to_double (of_int n / 2) = Finite (of_int n / 2)"
  proof (rule round_to_double_exact [where k = n and j = "- 1"])
    show "(of_int n :: rat) / 2 = of_int n * pow2 (- 1)" by (simp add: pow2_def)
    show "\<bar>n\<bar> < 2 ^ 53" by (rule assms)
    show "- 1074 \<le> (- 1 :: int)" by simp
    have "\<bar>of_int n :: rat\<bar> < 2 ^ 53" by (rule of_int_small [OF assms])
    then have "\<bar>(of_int n :: rat) / 2\<bar> < 2 ^ 53" by simp
    also have "\<dots> \<le> pow2 1024" by simp
    finally show "\<bar>(of_int n :: rat) / 2\<bar> < pow2 1024" .
  qed
  then show ?thesis by (simp add: int_truediv_def)
qed

lemma crop_offset_exact:
  assumes "0 \<le> n" and "n < 2 ^ 53"
  shows "and_then (int_truediv n 2) py_int = Inr (n div 2)"
proof -
  have "\<bar>n\<bar> < 2 ^ 53" using assms by simp
  from half_exact [OF this] have h: "int_truediv n 2 = Inr (Finite (of_int n / 2))" .
  have "\<lfloor>(of_int n :: rat) / of_int 2\<rfloor> = n div 2" by (rule floor_divide_of_int_eq)
  then have "\<lfloor>(of_int n :: rat) / 2\<rfloor> = n div 2" by simp
  then show ?thesis using assms(1) by (simp add: h and_then_def)
qed

lemma crop_offset_bounds:
  assumes "0 \<le> n" and "n < 2 ^ 106"
  shows "\<exists>l. and_then (int_truediv n 2) py_int = Inr l \<and> 0 \<le> l \<and> l \<le> n"
proof (cases "n = 0")
  case True
  then show ?thesis by (simp add: int_truediv_def round_to_double_def and_then_def)
next
  case False
  define x :: rat where "x = of_int n / of_int 2"
  have n1: "1 \<le> n" using assms(1) False by simp
  then have "(of_int 1 :: rat) \<le> of_int n" by (simp only: of_int_le_iff)
  then have xpos: "1 / 2 \<le> x" by (simp add: x_def)
  have "(of_int n :: rat) < of_int (2 ^ 106)" using assms(2) by (simp only: of_int_less_iff)
  then have x_hi: "x < 2 ^ 105" by (simp add: x_def)
  have lo: "pow2 (- 1022) \<le> \<bar>x\<bar>"
  proof -
    have "pow2 (- 1022) \<le> pow2 (- 1)" by (simp only: pow2_le_iff)
    also have "\<dots> = 1 / 2" by (simp add: pow2_def)
    finally show ?thesis using xpos by simp
  qed
  have hi: "\<bar>x\<bar> < pow2 1023"
  proof -
    have "(2::rat) ^ 105 < pow2 1023" by simp
    with x_hi have "x < pow2 1023" by (rule less_trans)
    then show ?thesis using xpos by simp
  qed
  from round_to_double_error [OF lo hi]
  obtain p where p: "round_to_double x = Finite p" "\<bar>p - x\<bar> \<le> \<bar>x\<bar> / 2 ^ 53" by blast
  have ax: "\<bar>x\<bar> = x" using xpos by simp
  have "x / 2 ^ 53 \<le> x / 2" using xpos by simp
  with p(2) have px: "\<bar>p - x\<bar> \<le> x / 2" by (simp only: ax)
  have "x - p \<le> \<bar>p - x\<bar>" using abs_ge_minus_self [of "p - x"] by simp
  with px have p_lo: "0 \<le> p" using xpos by linarith
  have "p - x \<le> \<bar>p - x\<bar>" by (rule abs_ge_self)
  with px have "p \<le> 2 * x" by linarith
  then have p_hi: "p \<le> of_int n" by (simp add: x_def)
  have "0 \<le> \<lfloor>p\<rfloor>" using p_lo by simp
  moreover have "\<lfloor>p\<rfloor> \<le> n" using p_hi by (simp add: floor_le_iff)
  moreover have "and_then (int_truediv n 2) py_int = Inr \<lfloor>p\<rfloor>"
    using p(1) p_lo by (simp add: int_truediv_def x_def and_then_def)
  ultimately show ?thesis by blast
qed

lemma scaled_short:
  assumes m: "1 \<le> m" "m < 2 ^ 53" and t: "1 \<le> T" "T \<le> 2 ^ 50"
    and e: "\<bar>of_int m * s - of_int T\<bar> \<le> (of_int T :: rat) / 2 ^ 53"
  shows "scaled m (Finite s) = Inr T"
proof -
  have "\<bar>m\<bar> < 2 ^ 53" using m by simp
  then have f: "py_float m = Inr (Finite (of_int m))" by (rule py_float_exact)
  have "(of_int 1 :: rat) \<le> of_int T" using t(1) by (simp only: of_int_le_iff)
  then have t1: "(1::rat) \<le> of_int T" by simp
  have "(of_int T :: rat) \<le> of_int (2 ^ 50)" using t(2) by (simp only: of_int_le_iff)
  then have t2: "(of_int T :: rat) \<le> 2 ^ 50" by simp
  from product_short [OF t1 t2 e]
  obtain p where p: "round_to_double (of_int m * s) = Finite p" "\<bar>p - of_int T\<bar> < 1 / 2"
    by blast
  have "round_half_even p = T" using p(2) by (rule round_half_even_eqI)
  then show ?thesis by (simp add: scaled_def f and_then_def p(1))
qed

lemma scaled_long:
  assumes m: "1 \<le> m" and d: "m \<le> d" "d < 2 ^ 53" and t: "1 \<le> T" "T \<le> 2 ^ 50"
    and e: "\<bar>of_int m * s - of_int T\<bar> \<le> (of_int T :: rat) / 2 ^ 53"
    and s: "0 < s" "s \<le> 2 ^ 51"
  shows "\<exists>n. scaled d (Finite s) = Inr n \<and> T \<le> n \<and> n < 2 ^ 106"
proof -
  have "\<bar>d\<bar> < 2 ^ 53" using m d by simp
  then have f: "py_float d = Inr (Finite (of_int d))" by (rule py_float_exact)
  have "(of_int 1 :: rat) \<le> of_int T" using t(1) by (simp only: of_int_le_iff)
  then have t1: "(1::rat) \<le> of_int T" by simp
  have "(of_int T :: rat) \<le> of_int (2 ^ 50)" using t(2) by (simp only: of_int_le_iff)
  then have t2: "(of_int T :: rat) \<le> 2 ^ 50" by simp
  have d1: "(of_int m :: rat) \<le> of_int d" using d(1) by (simp only: of_int_le_iff)
  have "(of_int d :: rat) < of_int (2 ^ 53)" using d(2) by (simp only: of_int_less_iff)
  then have d2: "(of_int d :: rat) < 2 ^ 53" by simp
  from product_long [OF t1 t2 e s d1 d2]
  obtain p where p: "round_to_double (of_int d * s) = Finite p" "of_int T - 1 / 2 < p"
    "p < 2 ^ 105" by blast
  have ge: "T \<le> round_half_even p" using p(2) by (rule round_half_even_ge)
  have "\<bar>of_int (round_half_even p) - p\<bar> \<le> 1 / 2" by (rule round_half_even_error)
  moreover have "of_int (round_half_even p) - p \<le> \<bar>of_int (round_half_even p) - p\<bar>"
    by (rule abs_ge_self)
  moreover have "(2::rat) ^ 106 = 2 * 2 ^ 105" by simp
  moreover have "(1::rat) \<le> 2 ^ 105" by simp
  ultimately have "(of_int (round_half_even p) :: rat) < 2 ^ 106" using p(3) by linarith
  then have "(of_int (round_half_even p) :: rat) < of_int (2 ^ 106)" by simp
  then have "round_half_even p < 2 ^ 106" by (simp only: of_int_less_iff)
  with ge show ?thesis by (simp add: scaled_def f and_then_def p(1))
qed

lemma scaled_unfold:
  assumes "\<bar>d\<bar> < 2 ^ 53" and "scaled d (Finite s) = Inr n"
  shows "\<exists>p. float_mul (Finite (of_int d)) (Finite s) = Finite p \<and> n = round_half_even p"
proof -
  have f: "py_float d = Inr (Finite (of_int d))" using assms(1) by (rule py_float_exact)
  from assms(2) have "py_round (round_to_double (of_int d * s)) = Inr n"
    by (simp add: scaled_def f and_then_def)
  then show ?thesis by (cases "round_to_double (of_int d * s)") auto
qed

lemma round_to_double_eval:
  assumes "pow2 e \<le> \<bar>x\<bar>" and "\<bar>x\<bar> < pow2 (e + 1)" and "- 1022 \<le> e"
    and "of_int (round_half_even (x / pow2 (e - 52))) * pow2 (e - 52) = y"
    and "\<bar>y\<bar> < pow2 1024"
  shows "round_to_double x = Finite y"
proof -
  have b: "binade x = e" using assms(1,2) by (rule binade_unique)
  have nz: "x \<noteq> 0" using assms(1) pow2_pos [of e] by auto
  have m: "max e (- 1022) = e" using assms(3) by simp
  show ?thesis using nz assms(4,5) by (simp add: round_to_double_def b m Let_def)
qed

lemma geometry_in_range:
  assumes w: "1 \<le> w" "w < 2 ^ 53" and h: "1 \<le> h" "h < 2 ^ 53"
    and t: "1 \<le> T" "T \<le> 2 ^ 50"
  shows "\<exists>s. scale_factor T (w, h) = Inr (Finite s) \<and>
           round_to_double (of_int T / of_int (min w h)) = Finite s \<and>
           scaled (min w h) (Finite s) = Inr T \<and>
           (\<exists>n. scaled (max w h) (Finite s) = Inr n \<and> T \<le> n \<and> n < 2 ^ 106)"
proof -
  define m where "m = min w h"
  define d where "d = max w h"
  have m: "1 \<le> m" "m < 2 ^ 53" using w h by (simp_all add: m_def)
  have d: "m \<le> d" "d < 2 ^ 53" using w h by (simp_all add: m_def d_def)
  have fm: "py_float m = Inr (Finite (of_int m))" using m by (intro py_float_exact) simp
  have ft: "py_float T = Inr (Finite (of_int T))" using t by (intro py_float_exact) simp
  have "(of_int 1 :: rat) \<le> of_int T" using t(1) by (simp only: of_int_le_iff)
  then have t1: "(1::rat) \<le> of_int T" by simp
  have "(of_int T :: rat) \<le> of_int (2 ^ 50)" using t(2) by (simp only: of_int_le_iff)
  then have t2: "(of_int T :: rat) \<le> 2 ^ 50" by simp
  have "(of_int 1 :: rat) \<le> of_int m" using m(1) by (simp only: of_int_le_iff)
  then have m1: "(1::rat) \<le> of_int m" by simp
  have "(of_int m :: rat) < of_int (2 ^ 53)" using m(2) by (simp only: of_int_less_iff)
  then have m2: "(of_int m :: rat) < 2 ^ 53" by simp
  from scale_error [OF t1 t2 m1 m2]
  obtain s where s: "round_to_double (of_int T / of_int m) = Finite s"
    "\<bar>of_int m * s - of_int T\<bar> \<le> (of_int T :: rat) / 2 ^ 53" "0 < s" "s \<le> 2 ^ 51"
    by blast
  have mnz: "(of_int m :: rat) \<noteq> 0" using m1 by simp
  have sf: "scale_factor T (w, h) = Inr (Finite s)"
    using mnz by (simp add: scale_factor_def m_def [symmetric] fm ft and_then_def s(1))
  have short: "scaled m (Finite s) = Inr T" using m t s(2) by (rule scaled_short)
  from scaled_long [OF m(1) d t s(2,3,4)]
  obtain n where n: "scaled d (Finite s) = Inr n" "T \<le> n" "n < 2 ^ 106" by blast
  show ?thesis
    using sf s(1) short n by (auto simp: m_def d_def)
qed

lemma new_size_in_range:
  assumes w: "1 \<le> w" "w < 2 ^ 53" and h: "1 \<le> h" "h < 2 ^ 53"
    and t: "1 \<le> T" "T \<le> 2 ^ 50"
  shows "\<exists>nw nh. new_size T (w, h) = Inr (nw, nh) \<and>
           (w \<le> h \<longrightarrow> nw = T \<and> T \<le> nh \<and> nh < 2 ^ 106) \<and>
           (h \<le> w \<longrightarrow> nh = T \<and> T \<le> nw \<and> nw < 2 ^ 106)"
proof -
  from geometry_in_range [OF assms]
  obtain s n where s: "scale_factor T (w, h) = Inr (Finite s)"
    "scaled (min w h) (Finite s) = Inr T"
    "scaled (max w h) (Finite s) = Inr n" "T \<le> n" "n < 2 ^ 106" by blast
  show ?thesis
  proof (cases "w \<le> h")
    case True
    then have "min w h = w" "max w h = h" by simp_all
    with s have "new_size T (w, h) = Inr (T, n)"
      by (simp add: new_size_def and_then_def)
    moreover have "h \<le> w \<Longrightarrow> n = T" using True s(2,3) \<open>min w h = w\<close> \<open>max w h = h\<close> by simp
    ultimately show ?thesis using s(4,5) True by auto
  next
    case False
    then have "min w h = h" "max w h = w" by simp_all
    with s have "new_size T (w, h) = Inr (n, T)"
      by (simp add: new_size_def and_then_def)
    then show ?thesis using s(4,5) False by auto
  qed
qed

subsection \<open>Evaluation at concrete inputs\<close>

lemma pow2_1 [simp]: "pow2 1 = 2"
  by (simp add: pow2_def)

lemma pow2_minus_1 [simp]: "pow2 (- 1) = 1 / 2"
  by (simp add: pow2_def)

lemma floor_rat_numeral [simp]: "\<lfloor>numeral a / numeral b :: rat\<rfloor> = numeral a div numeral b"
  by (metis floor_divide_of_int_eq of_int_numeral)

lemma ceiling_minus_half [simp]: "\<lceil>- (1 / 2) :: rat\<rceil> = 0"
  by (simp add: ceiling_eq_iff)

lemma scale_512_600: "round_to_double (512 / 600) = Finite (7686143364045647 / 9007199254740992)"
  by (rule round_to_double_eval [where e = "- 1"]) (simp_all add: round_half_even_def Let_def)

lemma float_big: "round_to_double 9007199254740993 = Finite 9007199254740992"
  by (rule round_to_double_eval [where e = 53]) (simp_all add: round_half_even_def Let_def)

lemma float_2_53: "round_to_double 9007199254740992 = Finite 9007199254740992"
  by (rule round_to_double_eval [where e = 53]) (simp_all add: round_half_even_def Let_def)

lemma new_size_big: "new_size 9007199254740993 (1, 1) = Inr (9007199254740992, 9007199254740992)"
proof -
  have one: "py_float 1 = Inr (Finite 1)" using py_float_exact [of 1] by simp
  have big: "py_float 9007199254740993 = Inr (Finite 9007199254740992)"
    using float_big by (simp add: py_float_def)
  have s: "scale_factor 9007199254740993 (1, 1) = Inr (Finite 9007199254740992)"
    using float_2_53 by (simp add: scale_factor_def one big and_then_def)
  have d: "scaled 1 (Finite 9007199254740992) = Inr 9007199254740992"
    using float_2_53 by (simp add: scaled_def one and_then_def round_half_even_def Let_def)
  show ?thesis by (simp add: new_size_def s d and_then_def)
qed

lemma crop_box_big:
  "crop_box 9007199254740993 (9007199254740992, 9007199254740992) =
     Inr (0, 0, 9007199254740993, 9007199254740993)"
proof -
  have "int_truediv (- 1) 2 = Inr (Finite (of_int (- 1) / 2))"
    by (rule half_exact) simp
  then show ?thesis by (simp add: crop_box_def Let_def and_then_def)
qed

lemma new_size_800_600: "new_size 512 (800, 600) = Inr (683, 512)"
proof -
  have f600: "py_float 600 = Inr (Finite 600)" using py_float_exact [of 600] by simp
  have f800: "py_float 800 = Inr (Finite 800)" using py_float_exact [of 800] by simp
  have f512: "py_float 512 = Inr (Finite 512)" using py_float_exact [of 512] by simp
  have s: "scale_factor 512 (800, 600) = Inr (Finite (7686143364045647 / 9007199254740992))"
    using scale_512_600 by (simp add: scale_factor_def f600 f512 and_then_def)
  have pw: "round_to_double (800 * (7686143364045647 / 9007199254740992)) = Finite (3002399751580331 / 4398046511104)"
    by (rule round_to_double_eval [where e = 9]) (simp_all add: round_half_even_def Let_def)
  have ph: "round_to_double (600 * (7686143364045647 / 9007199254740992)) = Finite 512"
    by (rule round_to_double_eval [where e = 9]) (simp_all add: round_half_even_def Let_def)
  have w: "scaled 800 (Finite (7686143364045647 / 9007199254740992)) = Inr 683"
    using pw by (simp add: scaled_def f800 and_then_def round_half_even_def Let_def)
  have h: "scaled 600 (Finite (7686143364045647 / 9007199254740992)) = Inr 512"
    using ph by (simp add: scaled_def f600 and_then_def round_half_even_def Let_def)
  show ?thesis by (simp add: new_size_def s w h and_then_def)
qed

subsection \<open>The concrete world\<close>

lemma demo_crop: "crop_returns_box_size (demo_world resp sz)"
  by (simp add: crop_returns_box_size_def demo_world_def)

lemma demo_makedirs_empty: "makedirs_rejects_empty (demo_world resp sz)"
  by (simp add: makedirs_rejects_empty_def demo_world_def demo_makedirs_def)

lemma demo_makedirs_idem: "makedirs_idempotent (demo_world resp sz)"
  by (auto simp: makedirs_idempotent_def demo_world_def demo_makedirs_def
      split: if_splits option.splits demo_node.splits)

lemma map_of_filter_other:
  "d \<noteq> p \<Longrightarrow> map_of (filter (\<lambda>entry. fst entry \<noteq> p) fs) d = map_of fs d"
  by (induction fs) auto

lemma demo_save_idem: "save_idempotent (demo_world resp sz)"
  by (auto simp: save_idempotent_def demo_world_def demo_save_def split: if_splits)

lemma demo_save_keeps: "save_keeps_directory (demo_world resp sz)"
proof -
  have "demo_makedirs (dirname p) True fs' = (Inr (), fs')"
    if m: "demo_makedirs (dirname p) True fs = (Inr (), fs)" and s: "demo_save im p fs = (r, fs')"
    for im p fs r fs'
  proof -
    from m have d: "dirname p \<noteq> []" "map_of fs (dirname p) = Some Dir"
      by (auto simp: demo_makedirs_def split: if_splits option.splits demo_node.splits)
    show ?thesis
    proof (cases "map_of fs p = Some Dir")
      case True
      then have "fs' = fs" using s by (simp add: demo_save_def)
      then show ?thesis using m by simp
    next
      case False
      then have ne: "dirname p \<noteq> p" using d(2) by auto
      have "fs' = (p, File im) # filter (\<lambda>entry. fst entry \<noteq> p) fs"
        using s False by (simp add: demo_save_def)
      then have "map_of fs' (dirname p) = Some Dir"
        using ne d(2) by (simp add: map_of_filter_other)
      then show ?thesis using d(1) by (simp add: demo_makedirs_def)
    qed
  qed
  then show ?thesis by (simp add: save_keeps_directory_def demo_world_def)
qed

lemma not_removed: "\<not> sublist ''removed.png'' ''https://i.imgur.com/a.jpg''"
  by (simp add: sublist_Cons_right)

lemma is_removed: "sublist ''removed.png'' ''https://i.imgur.com/removed.png''"
  by (simp add: sublist_Cons_right)

lemma dirname_demo: "dirname ''out/a.jpg'' = ''out''"
  by (simp add: dirname_def)

lemma crop_box_683_512: "crop_box 512 (683, 512) = Inr (85, 0, 597, 512)"
  using crop_offset_exact [of 171] by (simp add: crop_box_def Let_def and_then_def)

lemma demo_fetch_512:
  "fetch_image (demo_world demo_served (800, 600)) 512 src = Some (Inr (512, 512))"
  by (simp add: fetch_image_def demo_world_def demo_served_def not_removed and_then_def
      resize_and_crop_def new_size_800_600 crop_box_683_512)

lemma demo_download_512:
  "download (demo_world demo_served (800, 600)) 512 src ''out/a.jpg'' [] =
     (True, [(''out/a.jpg'', File (512, 512)), (''out'', Dir)])"
  by (simp add: download_def demo_fetch_512 dirname_demo)
    (simp add: demo_world_def demo_makedirs_def demo_save_def)

lemma demo_fetch_off:
  "fetch_image (demo_world demo_served (800, 600)) (- 1) src = Some (Inr (800, 600))"
  by (simp add: fetch_image_def demo_world_def demo_served_def not_removed and_then_def)

lemma demo_download_off:
  "download (demo_world demo_served (800, 600)) (- 1) src ''out/a.jpg'' [] =
     (True, [(''out/a.jpg'', File (800, 600)), (''out'', Dir)])"
  by (simp add: download_def demo_fetch_off dirname_demo)
    (simp add: demo_world_def demo_makedirs_def demo_save_def)

lemma stamp_fetch_512: "fetch_image stamp_world 512 src = Some (Inr (512, 512))"
  by (simp add: fetch_image_def stamp_world_def demo_served_def not_removed and_then_def
      resize_and_crop_def new_size_800_600 crop_box_683_512)

section \<open>The control flow of download\<close>

lemma download_True_iff:
  "download W T src save_to fs = (True, fs') \<longleftrightarrow>
     (\<exists>im fs1. fetch_image W T src = Some (Inr im) \<and>
        os_makedirs W (dirname save_to) True fs = (Inr (), fs1) \<and>
        image_save W im save_to fs1 = (Inr (), fs'))"
  by (auto simp: download_def split: option.splits sum.splits prod.splits)

lemma fetch_image_Inr_iff:
  "fetch_image W T src = Some (Inr im) \<longleftrightarrow>
     (\<exists>resp opened pil_image. requests_get W src = Inr resp \<and> status_code resp = 200 \<and>
        \<not> sublist ''removed.png'' (final_url resp) \<and>
        image_open W (content resp) = Inr opened \<and>
        image_convert_rgb W opened = Inr pil_image \<and>
        (if 0 < T then resize_and_crop W T pil_image else Inr pil_image) = Inr im)"
  by (auto simp: fetch_image_def and_then_def split: sum.splits if_splits)

lemma resize_and_crop_size:
  assumes "crop_returns_box_size W" and "resize_and_crop W T pil_image = Inr im"
  shows "image_size W im = (T, T)"
  using assms
  by (auto simp: resize_and_crop_def crop_box_def and_then_def crop_returns_box_size_def Let_def
      split: sum.splits if_splits)

lemma dirname_bare: "CHR ''/'' \<notin> set p \<Longrightarrow> dirname p = []"
proof -
  assume "CHR ''/'' \<notin> set p"
  then have "dropWhile (\<lambda>c. c \<noteq> CHR ''/'') (rev p) = []" by auto
  then show ?thesis by (simp add: dirname_def)
qed

section \<open>The claims\<close>

text \<open>
  C1. For every successful download with \<open>targetSize > 0\<close>, the image written to the
  destination has dimensions exactly \<open>(targetSize, targetSize)\<close>: the image handed to
  \<open>save\<close>, whose call produces the final file system, has that size. The size of the
  source plays no part. Pillow's contract for \<open>crop\<close> is the one fact used.
\<close>

theorem download_writes_target_square:
  assumes "0 < T" and "crop_returns_box_size W"
    and "download W T src save_to fs = (True, fs')"
  shows "\<exists>im fs1. image_size W im = (T, T) \<and> fetch_image W T src = Some (Inr im) \<and>
           image_save W im save_to fs1 = (Inr (), fs')"
  using assms unfolding download_True_iff fetch_image_Inr_iff
  by (auto dest: resize_and_crop_size)

theorem download_writes_target_square_witness:
  "\<exists>im fs1. image_size (demo_world demo_served (800, 600)) im = (512, 512) \<and>
     fetch_image (demo_world demo_served (800, 600)) 512 ''https://i.imgur.com/a.jpg'' = Some (Inr im) \<and>
     image_save (demo_world demo_served (800, 600)) im ''out/a.jpg'' fs1 =
       (Inr (), [(''out/a.jpg'', File (512, 512)), (''out'', Dir)])"
  using download_writes_target_square [OF _ demo_crop demo_download_512, of "''https://i.imgur.com/a.jpg''"]
  by simp

text \<open>
  C2. When the status code is not 200, or the final URL contains \<open>removed.png\<close> (whatever
  the status code), download returns \<open>False\<close> at line 49: before any decode or write.
  The result is the same whatever the decoding, transforming and writing calls would do,
  and the file system is the one the call started from.
\<close>

theorem download_rejects_bad_response:
  assumes "requests_get W src = Inr resp"
    and "status_code resp \<noteq> 200 \<or> sublist ''removed.png'' (final_url resp)"
  shows "fetch_image W T src = None \<and>
         download (W\<lparr>image_open := dec, image_convert_rgb := cv, image_resize := rs,
                     image_crop := cr, os_makedirs := md, image_save := sv\<rparr>) T src save_to fs =
           (False, fs)"
  using assms by (auto simp: download_def fetch_image_def)

theorem download_rejects_bad_response_witness:
  "fetch_image (demo_world demo_removed (800, 600)) 512 ''https://i.imgur.com/gone.jpg'' = None \<and>
   download (demo_world demo_removed (800, 600)) 512 ''https://i.imgur.com/gone.jpg'' ''out/a.jpg'' [] =
     (False, []) \<and>
   download (demo_world demo_not_found (800, 600)) 512 ''https://i.imgur.com/gone.jpg'' ''out/a.jpg'' [] =
     (False, [])"
proof -
  let ?R = "demo_world demo_removed (800, 600)" and ?N = "demo_world demo_not_found (800, 600)"
  have r: "requests_get ?R ''https://i.imgur.com/gone.jpg'' = Inr demo_removed"
    by (simp add: demo_world_def)
  have n: "requests_get ?N ''https://i.imgur.com/gone.jpg'' = Inr demo_not_found"
    by (simp add: demo_world_def)
  have rb: "status_code demo_removed \<noteq> 200 \<or> sublist ''removed.png'' (final_url demo_removed)"
    by (simp add: demo_removed_def is_removed)
  have nb: "status_code demo_not_found \<noteq> 200 \<or> sublist ''removed.png'' (final_url demo_not_found)"
    by (simp add: demo_not_found_def)
  show ?thesis
    using download_rejects_bad_response [OF r rb, where T = 512 and dec = "image_open ?R"
        and cv = "image_convert_rgb ?R" and rs = "image_resize ?R" and cr = "image_crop ?R"
        and md = "os_makedirs ?R" and sv = "image_save ?R" and save_to = "''out/a.jpg''" and fs = "[]"]
      download_rejects_bad_response [OF n nb, where T = 512 and dec = "image_open ?N"
        and cv = "image_convert_rgb ?N" and rs = "image_resize ?N" and cr = "image_crop ?N"
        and md = "os_makedirs ?N" and sv = "image_save ?N" and save_to = "''out/a.jpg''" and fs = "[]"]
    by simp
qed

text \<open>
  C3, as stated, fails. With \<open>targetSize = 2 ^ 53 + 1\<close> and a 1 by 1 image,
  \<open>float(crop_resize)\<close> rounds to \<open>2 ^ 53\<close>, the scale is \<open>2 ^ 53\<close> and both new edges
  are \<open>2 ^ 53\<close>: the shorter edge is not the target.
\<close>

theorem new_size_shorter_edge_counterexample:
  "new_size 9007199254740993 (1, 1) = Inr (9007199254740992, 9007199254740992) \<and>
   min (9007199254740992 :: int) 9007199254740992 \<noteq> 9007199254740993"
  by (simp add: new_size_big)

text \<open>
  C3, amended. For every decoded image of width and height from 1 to below \<open>2 ^ 53\<close>
  and every target from 1 to \<open>2 ^ 50\<close>: the scale is the float quotient of the target
  by the shorter edge, the new width and height are the float products of the width and
  the height with the scale, rounded to the nearest int; all of it is computed without
  error, the shorter new edge is exactly the target and the longer one at least the
  target.
\<close>

theorem new_size_shorter_edge_in_range:
  assumes "1 \<le> w" "w < 2 ^ 53" "1 \<le> h" "h < 2 ^ 53" "1 \<le> T" "T \<le> 2 ^ 50"
  shows "\<exists>scale pw ph.
           float_truediv (Finite (of_int T)) (Finite (of_int (min w h))) = Inr (Finite scale) \<and>
           scale_factor T (w, h) = Inr (Finite scale) \<and>
           float_mul (Finite (of_int w)) (Finite scale) = Finite pw \<and>
           float_mul (Finite (of_int h)) (Finite scale) = Finite ph \<and>
           new_size T (w, h) = Inr (round_half_even pw, round_half_even ph) \<and>
           min (round_half_even pw) (round_half_even ph) = T \<and>
           T \<le> max (round_half_even pw) (round_half_even ph) \<and>
           (w \<le> h \<longrightarrow> round_half_even pw = T) \<and> (h \<le> w \<longrightarrow> round_half_even ph = T)"
proof -
  from geometry_in_range [OF assms]
  obtain s where s: "scale_factor T (w, h) = Inr (Finite s)"
    "round_to_double (of_int T / of_int (min w h)) = Finite s" by blast
  from new_size_in_range [OF assms]
  obtain nw nh where n: "new_size T (w, h) = Inr (nw, nh)"
    "w \<le> h \<longrightarrow> nw = T \<and> T \<le> nh" "h \<le> w \<longrightarrow> nh = T \<and> T \<le> nw" by blast
  have "(of_int (min w h) :: rat) \<noteq> 0" using assms(1,3) by simp
  then have d: "float_truediv (Finite (of_int T)) (Finite (of_int (min w h))) = Inr (Finite s)"
    using s(2) by simp
  from n(1) s(1) have sc: "scaled w (Finite s) = Inr nw" "scaled h (Finite s) = Inr nh"
    by (auto simp: new_size_def and_then_def split: sum.splits)
  have "\<bar>w\<bar> < 2 ^ 53" "\<bar>h\<bar> < 2 ^ 53" using assms by simp_all
  from scaled_unfold [OF this(1) sc(1)] scaled_unfold [OF this(2) sc(2)]
  obtain pw ph where p: "float_mul (Finite (of_int w)) (Finite s) = Finite pw" "nw = round_half_even pw"
    "float_mul (Finite (of_int h)) (Finite s) = Finite ph" "nh = round_half_even ph" by blast
  have "min nw nh = T \<and> T \<le> max nw nh" using n(2,3) by (cases "w \<le> h") auto
  then show ?thesis using d s(1) p n by auto
qed

theorem new_size_shorter_edge_in_range_witness:
  "\<exists>scale pw ph.
     float_truediv (Finite 512) (Finite 600) = Inr (Finite scale) \<and>
     scale_factor 512 (800, 600) = Inr (Finite scale) \<and>
     float_mul (Finite 800) (Finite scale) = Finite pw \<and>
     float_mul (Finite 600) (Finite scale) = Finite ph \<and>
     new_size 512 (800, 600) = Inr (round_half_even pw, round_half_even ph) \<and>
     min (round_half_even pw) (round_half_even ph) = 512 \<and>
     512 \<le> max (round_half_even pw) (round_half_even ph) \<and>
     round_half_even ph = 512"
  using new_size_shorter_edge_in_range [of 800 600 512] by simp

text \<open>
  C4, as stated, fails. The code computes \<open>int((new_width - crop_resize) / 2)\<close>: a
  float division, then a truncation towards zero, which is the floor only for a
  nonnegative quotient it can represent. With \<open>targetSize = 2 ^ 53 + 1\<close> and a 1 by 1
  image the resized size is \<open>(2 ^ 53, 2 ^ 53)\<close>, the difference is \<open>- 1\<close>, the code's
  left edge is \<open>int(- 0.5) = 0\<close> and the floor is \<open>- 1\<close>.
\<close>

theorem crop_box_floor_counterexample:
  "new_size 9007199254740993 (1, 1) = Inr (9007199254740992, 9007199254740992) \<and>
   crop_box 9007199254740993 (9007199254740992, 9007199254740992) =
     Inr (0, 0, 9007199254740993, 9007199254740993) \<and>
   \<lfloor>(of_int (9007199254740992 - 9007199254740993) :: rat) / 2\<rfloor> = - 1"
  by (simp add: new_size_big crop_box_big floor_eq_iff)

text \<open>
  C4, amended. For every resized size \<open>(newW, newH)\<close> and target \<open>T\<close>: if
  \<open>newW \<ge> newH\<close> (the square included) and \<open>0 \<le> newW - T < 2 ^ 53\<close>, the crop box is
  \<open>[floor((newW - T) / 2), 0, left + T, T]\<close>; if \<open>newW < newH\<close> and
  \<open>0 \<le> newH - T < 2 ^ 53\<close>, it is \<open>[0, floor((newH - T) / 2), T, top + T]\<close>.
\<close>

theorem crop_box_floor_in_range:
  "(nh \<le> nw \<and> T \<le> nw \<and> nw - T < 2 ^ 53 \<longrightarrow>
      crop_box T (nw, nh) =
        Inr (\<lfloor>(of_int (nw - T) :: rat) / 2\<rfloor>, 0, \<lfloor>(of_int (nw - T) :: rat) / 2\<rfloor> + T, T)) \<and>
   (nw < nh \<and> T \<le> nh \<and> nh - T < 2 ^ 53 \<longrightarrow>
      crop_box T (nw, nh) =
        Inr (0, \<lfloor>(of_int (nh - T) :: rat) / 2\<rfloor>, T, \<lfloor>(of_int (nh - T) :: rat) / 2\<rfloor> + T))"
proof -
  have fl: "\<lfloor>(of_int n :: rat) / 2\<rfloor> = n div 2" for n
    using floor_divide_of_int_eq [of n 2, where ?'a = rat] by simp
  show ?thesis
  proof (intro conjI impI)
    assume a: "nh \<le> nw \<and> T \<le> nw \<and> nw - T < 2 ^ 53"
    then have "and_then (int_truediv (nw - T) 2) py_int = Inr ((nw - T) div 2)"
      by (intro crop_offset_exact) auto
    then have "crop_box T (nw, nh) = Inr ((nw - T) div 2, 0, (nw - T) div 2 + T, T)"
      using a by (simp add: crop_box_def Let_def and_then_def)
    then show "crop_box T (nw, nh) =
        Inr (\<lfloor>(of_int (nw - T) :: rat) / 2\<rfloor>, 0, \<lfloor>(of_int (nw - T) :: rat) / 2\<rfloor> + T, T)"
      by (simp only: fl)
  next
    assume a: "nw < nh \<and> T \<le> nh \<and> nh - T < 2 ^ 53"
    then have "and_then (int_truediv (nh - T) 2) py_int = Inr ((nh - T) div 2)"
      by (intro crop_offset_exact) auto
    then have "crop_box T (nw, nh) = Inr (0, (nh - T) div 2, T, (nh - T) div 2 + T)"
      using a by (simp add: crop_box_def Let_def and_then_def)
    then show "crop_box T (nw, nh) =
        Inr (0, \<lfloor>(of_int (nh - T) :: rat) / 2\<rfloor>, T, \<lfloor>(of_int (nh - T) :: rat) / 2\<rfloor> + T)"
      by (simp only: fl)
  qed
qed

theorem crop_box_floor_in_range_witness:
  "crop_box 512 (683, 512) = Inr (85, 0, 597, 512) \<and>
   crop_box 512 (512, 768) = Inr (0, 128, 512, 640) \<and>
   crop_box 512 (512, 512) = Inr (0, 0, 512, 512)"
  using crop_box_floor_in_range [of 512 683 512] crop_box_floor_in_range [of 768 512 512]
    crop_box_floor_in_range [of 512 512 512]
  by simp

text \<open>
  C5. For every successful download with \<open>targetSize \<le> 0\<close>, the image handed to
  \<open>save\<close> is the decoded, RGB-converted image itself, and the resize and crop calls
  play no part: the outcome is the same whatever they would do.
\<close>

theorem download_disabled_saves_decoded_image:
  assumes "T \<le> 0" and "download W T src save_to fs = (True, fs')"
  shows "(\<exists>resp opened pil_image fs1.
            requests_get W src = Inr resp \<and>
            image_open W (content resp) = Inr opened \<and>
            image_convert_rgb W opened = Inr pil_image \<and>
            os_makedirs W (dirname save_to) True fs = (Inr (), fs1) \<and>
            image_save W pil_image save_to fs1 = (Inr (), fs')) \<and>
         download (W\<lparr>image_resize := rs, image_crop := cr\<rparr>) T src save_to fs = (True, fs')"
proof -
  have off: "\<not> 0 < T" using assms(1) by simp
  have same: "fetch_image (W\<lparr>image_resize := rs, image_crop := cr\<rparr>) T src = fetch_image W T src"
    by (auto simp: fetch_image_def off and_then_def split: sum.splits)
  have "download (W\<lparr>image_resize := rs, image_crop := cr\<rparr>) T src save_to fs =
        download W T src save_to fs"
    by (auto simp: download_def same split: option.splits sum.splits prod.splits)
  moreover have "\<exists>resp opened pil_image fs1.
            requests_get W src = Inr resp \<and>
            image_open W (content resp) = Inr opened \<and>
            image_convert_rgb W opened = Inr pil_image \<and>
            os_makedirs W (dirname save_to) True fs = (Inr (), fs1) \<and>
            image_save W pil_image save_to fs1 = (Inr (), fs')"
    using assms unfolding download_True_iff fetch_image_Inr_iff by auto
  ultimately show ?thesis using assms(2) by simp
qed

theorem download_disabled_saves_decoded_image_witness:
  "\<exists>resp opened pil_image fs1.
     requests_get (demo_world demo_served (800, 600)) ''https://i.imgur.com/a.jpg'' = Inr resp \<and>
     image_open (demo_world demo_served (800, 600)) (content resp) = Inr opened \<and>
     image_convert_rgb (demo_world demo_served (800, 600)) opened = Inr pil_image \<and>
     os_makedirs (demo_world demo_served (800, 600)) (dirname ''out/a.jpg'') True [] = (Inr (), fs1) \<and>
     image_save (demo_world demo_served (800, 600)) pil_image ''out/a.jpg'' fs1 =
       (Inr (), [(''out/a.jpg'', File (800, 600)), (''out'', Dir)])"
  using download_disabled_saves_decoded_image
    [OF _ demo_download_off, of "''https://i.imgur.com/a.jpg''"]
  by simp

text \<open>
  C6. download returns a boolean for every input and every behaviour of the libraries,
  and it returns \<open>True\<close> exactly when every step completed: the fetch returned a
  response with status 200 and no \<open>removed.png\<close> in its URL, the body was opened and
  converted, the transform (when enabled) returned an image, the directory was made and
  the image saved. Any exception of any step gives \<open>False\<close>.
\<close>

theorem download_true_iff_every_step_succeeds:
  "fst (download W T src save_to fs) \<longleftrightarrow>
     (\<exists>resp opened pil_image im fs1 fs2.
        requests_get W src = Inr resp \<and> status_code resp = 200 \<and>
        \<not> sublist ''removed.png'' (final_url resp) \<and>
        image_open W (content resp) = Inr opened \<and>
        image_convert_rgb W opened = Inr pil_image \<and>
        (if 0 < T then resize_and_crop W T pil_image else Inr pil_image) = Inr im \<and>
        os_makedirs W (dirname save_to) True fs = (Inr (), fs1) \<and>
        image_save W im save_to fs1 = (Inr (), fs2))"
proof -
  have "fst (download W T src save_to fs) \<longleftrightarrow> (\<exists>fs2. download W T src save_to fs = (True, fs2))"
    by (cases "download W T src save_to fs") auto
  then show ?thesis
    unfolding download_True_iff fetch_image_Inr_iff by blast
qed

theorem download_true_iff_every_step_succeeds_witness:
  "fst (download (demo_world demo_served (800, 600)) 512 ''https://i.imgur.com/a.jpg'' ''out/a.jpg'' []) \<and>
   \<not> fst (download (demo_world demo_corrupt (800, 600)) 512 ''https://i.imgur.com/a.jpg'' ''out/a.jpg'' [])"
proof -
  have "\<not> (\<exists>opened. image_open (demo_world demo_corrupt (800, 600)) (content demo_corrupt) = Inr opened)"
    by (simp add: demo_world_def demo_corrupt_def)
  moreover have "\<And>resp. requests_get (demo_world demo_corrupt (800, 600)) ''https://i.imgur.com/a.jpg'' = Inr resp
      \<Longrightarrow> resp = demo_corrupt"
    by (simp add: demo_world_def)
  ultimately have "\<not> fst (download (demo_world demo_corrupt (800, 600)) 512 ''https://i.imgur.com/a.jpg'' ''out/a.jpg'' [])"
    unfolding download_true_iff_every_step_succeeds by blast
  then show ?thesis by (simp add: demo_download_512)
qed

text \<open>
  C7. When download fails at the validation or decode stage (status code not 200,
  \<open>removed.png\<close> in the final URL, or body bytes that cannot be opened or converted),
  it returns \<open>False\<close> and the file system is the one the call started from: no file
  is written and no directory is created.
\<close>

theorem download_early_failure_leaves_filesystem:
  assumes "requests_get W src = Inr resp"
    and "status_code resp \<noteq> 200 \<or> sublist ''removed.png'' (final_url resp) \<or>
         (\<exists>e. image_open W (content resp) = Inl e) \<or>
         (\<exists>opened e. image_open W (content resp) = Inr opened \<and> image_convert_rgb W opened = Inl e)"
  shows "download W T src save_to fs = (False, fs)"
  using assms by (auto simp: download_def fetch_image_def and_then_def)

theorem download_early_failure_leaves_filesystem_witness:
  "download (demo_world demo_corrupt (800, 600)) 512 ''https://i.imgur.com/a.jpg'' ''out/a.jpg''
     [(''out/b.jpg'', File (512, 512)), (''out'', Dir)] =
     (False, [(''out/b.jpg'', File (512, 512)), (''out'', Dir)])"
proof -
  let ?W = "demo_world demo_corrupt (800, 600)"
  have g: "requests_get ?W ''https://i.imgur.com/a.jpg'' = Inr demo_corrupt"
    by (simp add: demo_world_def)
  have b: "status_code demo_corrupt \<noteq> 200 \<or> sublist ''removed.png'' (final_url demo_corrupt) \<or>
         (\<exists>e. image_open ?W (content demo_corrupt) = Inl e) \<or>
         (\<exists>opened e. image_open ?W (content demo_corrupt) = Inr opened \<and> image_convert_rgb ?W opened = Inl e)"
    by (simp add: demo_world_def demo_corrupt_def)
  show ?thesis using download_early_failure_leaves_filesystem [OF g b] by simp
qed

text \<open>
  C8, as stated, fails. A stable network does not make two calls agree: what the second
  call leaves also depends on the encoder and the file system, which the method takes
  as they are. With an encoder that stamps the file with the time of writing, the fetch
  returning the same response both times, both calls return \<open>True\<close> and the file at
  the destination is not the same after the second call as after the first.
\<close>

theorem download_idempotent_counterexample:
  "download stamp_world 512 ''https://i.imgur.com/a.jpg'' ''out/a.jpg'' (0, []) =
     (True, (1, [(''out/a.jpg'', (512, 512), 0)])) \<and>
   download stamp_world 512 ''https://i.imgur.com/a.jpg'' ''out/a.jpg''
     (1, [(''out/a.jpg'', (512, 512), 0)]) =
     (True, (2, [(''out/a.jpg'', (512, 512), 1)])) \<and>
   map_of [(''out/a.jpg'', ((512 :: int, 512 :: int), 0 :: nat))] ''out/a.jpg'' \<noteq>
   map_of [(''out/a.jpg'', ((512, 512), 1))] ''out/a.jpg''"
  by (simp add: download_def stamp_fetch_512 dirname_demo) (simp add: stamp_world_def)

text \<open>
  C8, amended. For every fixed fetch result (stable network content, a deterministic
  decoder) and every file system and encoder on which
  \<open>os.makedirs(dir, exist_ok=True)\<close> and \<open>save\<close>, run again on the state they left,
  end the same way and change nothing more, and on which saving a file does not undo
  the directory that holds it: a second call of download, with the same URL and
  destination, on the file system the first call left, returns what the first returned
  and leaves that file system as it is, so that the file at the destination, when there
  is one, has the same content and dimensions both times.
\<close>

theorem download_idempotent:
  assumes md: "makedirs_idempotent W" and sv: "save_idempotent W" and kd: "save_keeps_directory W"
    and first: "download W T src save_to fs = (ok, fs1)"
  shows "download W T src save_to fs1 = (ok, fs1)"
proof (cases "fetch_image W T src")
  case None
  then show ?thesis using first by (simp add: download_def)
next
  case (Some r)
  show ?thesis
  proof (cases r)
    case (Inl e)
    then show ?thesis using first Some by (simp add: download_def)
  next
    case (Inr im)
    obtain rm fsa where m: "os_makedirs W (dirname save_to) True fs = (rm, fsa)"
      by (cases "os_makedirs W (dirname save_to) True fs")
    from md m obtain rm' where m': "os_makedirs W (dirname save_to) True fsa = (rm', fsa)" "isl rm' = isl rm"
      unfolding makedirs_idempotent_def by blast
    show ?thesis
    proof (cases rm)
      case (Inl e)
      then have 1: "ok = False" "fs1 = fsa" using first Some Inr m by (simp_all add: download_def)
      from m'(2) Inl obtain e' where "rm' = Inl e'" by (cases rm') auto
      then show ?thesis using Some Inr m'(1) 1 by (simp add: download_def)
    next
      case (Inr u)
      obtain rs fsb where s: "image_save W im save_to fsa = (rs, fsb)"
        by (cases "image_save W im save_to fsa")
      from m'(2) Inr have "rm' = Inr ()" by (cases rm') auto
      with m'(1) have noop: "os_makedirs W (dirname save_to) True fsa = (Inr (), fsa)" by simp
      from kd noop s have m2: "os_makedirs W (dirname save_to) True fsb = (Inr (), fsb)"
        unfolding save_keeps_directory_def by blast
      from sv s obtain rs' where s': "image_save W im save_to fsb = (rs', fsb)" "isl rs' = isl rs"
        unfolding save_idempotent_def by blast
      have 1: "ok = (\<not> isl rs)" "fs1 = fsb"
        using first Some \<open>r = Inr im\<close> m Inr s by (cases rs; simp add: download_def)+
      have "download W T src save_to fsb = (\<not> isl rs', fsb)"
        using Some \<open>r = Inr im\<close> m2 s'(1) by (cases rs') (simp_all add: download_def)
      then show ?thesis using 1 s'(2) by simp
    qed
  qed
qed

theorem download_idempotent_witness:
  "download (demo_world demo_served (800, 600)) 512 ''https://i.imgur.com/a.jpg'' ''out/a.jpg''
     [(''out/a.jpg'', File (512, 512)), (''out'', Dir)] =
     (True, [(''out/a.jpg'', File (512, 512)), (''out'', Dir)])"
  using download_idempotent [OF demo_makedirs_idem demo_save_idem demo_save_keeps demo_download_512]
  by simp

text \<open>
  C9, as stated, fails. With \<open>targetSize = 2 ^ 53 + 1\<close> and a 1 by 1 image the resized
  size is \<open>(2 ^ 53, 2 ^ 53)\<close> and the crop box is \<open>(0, 0, 2 ^ 53 + 1, 2 ^ 53 + 1)\<close>: its
  right and bottom edges lie one past the resized image.
\<close>

theorem crop_box_inside_counterexample:
  "new_size 9007199254740993 (1, 1) = Inr (9007199254740992, 9007199254740992) \<and>
   crop_box 9007199254740993 (9007199254740992, 9007199254740992) =
     Inr (0, 0, 9007199254740993, 9007199254740993) \<and>
   \<not> (0 + 9007199254740993 \<le> (9007199254740992 :: int))"
  by (simp add: new_size_big crop_box_big)

text \<open>
  C9, amended. For every decoded image of width and height from 1 to below \<open>2 ^ 53\<close>
  and every target from 1 to \<open>2 ^ 50\<close>, the new size and the crop box are computed
  without error and the box lies inside the resized image: \<open>0 \<le> left\<close>,
  \<open>left + T \<le> newW\<close>, \<open>0 \<le> top\<close>, \<open>top + T \<le> newH\<close>, with \<open>top = 0\<close> in the
  landscape branch and \<open>left = 0\<close> in the portrait branch.
\<close>

theorem crop_box_inside_in_range:
  assumes "1 \<le> w" "w < 2 ^ 53" "1 \<le> h" "h < 2 ^ 53" "1 \<le> T" "T \<le> 2 ^ 50"
  shows "\<exists>nw nh l tp r b. new_size T (w, h) = Inr (nw, nh) \<and>
           crop_box T (nw, nh) = Inr (l, tp, r, b) \<and>
           0 \<le> l \<and> 0 \<le> tp \<and> r \<le> nw \<and> b \<le> nh \<and> r = l + T \<and> b = tp + T \<and>
           (nh \<le> nw \<longrightarrow> tp = 0) \<and> (nw < nh \<longrightarrow> l = 0)"
proof -
  from new_size_in_range [OF assms]
  obtain nw nh where n: "new_size T (w, h) = Inr (nw, nh)"
    "w \<le> h \<longrightarrow> nw = T \<and> T \<le> nh \<and> nh < 2 ^ 106"
    "h \<le> w \<longrightarrow> nh = T \<and> T \<le> nw \<and> nw < 2 ^ 106" by blast
  have T: "0 < T" using assms(5) by simp
  show ?thesis
  proof (cases "nh \<le> nw")
    case True
    have "0 \<le> nw - T \<and> nw - T < 2 ^ 106" using n(2,3) True T by (cases "w \<le> h") auto
    then obtain l where l: "and_then (int_truediv (nw - T) 2) py_int = Inr l" "0 \<le> l" "l \<le> nw - T"
      using crop_offset_bounds [of "nw - T"] by blast
    have "crop_box T (nw, nh) = Inr (l, 0, l + T, T)"
      using True l(1) by (simp add: crop_box_def Let_def and_then_def)
    moreover have "T \<le> nh" using n(2,3) by (cases "w \<le> h") auto
    ultimately show ?thesis using n(1) l(2,3) True by auto
  next
    case False
    have "0 \<le> nh - T \<and> nh - T < 2 ^ 106" using n(2,3) False T by (cases "w \<le> h") auto
    then obtain tp where tp: "and_then (int_truediv (nh - T) 2) py_int = Inr tp" "0 \<le> tp" "tp \<le> nh - T"
      using crop_offset_bounds [of "nh - T"] by blast
    have "crop_box T (nw, nh) = Inr (0, tp, T, tp + T)"
      using False tp(1) by (simp add: crop_box_def Let_def and_then_def)
    moreover have "T \<le> nw" using n(2,3) by (cases "w \<le> h") auto
    ultimately show ?thesis using n(1) tp(2,3) False by auto
  qed
qed

theorem crop_box_inside_in_range_witness:
  "\<exists>nw nh l tp r b. new_size 512 (400, 600) = Inr (nw, nh) \<and>
     crop_box 512 (nw, nh) = Inr (l, tp, r, b) \<and>
     0 \<le> l \<and> 0 \<le> tp \<and> r \<le> nw \<and> b \<le> nh \<and> r = l + 512 \<and> b = tp + 512 \<and>
     (nh \<le> nw \<longrightarrow> tp = 0) \<and> (nw < nh \<longrightarrow> l = 0)"
  using crop_box_inside_in_range [of 400 600 512] by simp

text \<open>
  C10. For every destination that is a bare file name (no slash, so that its directory
  part is the empty string), download returns \<open>False\<close> whatever the fetch, the
  validation and the decoding did: \<open>os.makedirs\<close> raises on the empty path.
\<close>

theorem download_bare_filename_fails:
  assumes "CHR ''/'' \<notin> set save_to" and "makedirs_rejects_empty W"
  shows "dirname save_to = [] \<and> fst (download W T src save_to fs) = False"
proof -
  obtain e where "fst (os_makedirs W [] True fs) = Inl e"
    using assms(2) by (auto simp: makedirs_rejects_empty_def)
  then show ?thesis
    using dirname_bare [OF assms(1)]
    by (auto simp: download_def split: option.splits sum.splits prod.splits)
qed

theorem download_bare_filename_fails_witness:
  "dirname ''a.jpg'' = [] \<and>
   fst (download (demo_world demo_served (800, 600)) 512 ''https://i.imgur.com/a.jpg'' ''a.jpg'' []) = False \<and>
   fetch_image (demo_world demo_served (800, 600)) 512 ''https://i.imgur.com/a.jpg'' = Some (Inr (512, 512))"
  using download_bare_filename_fails [OF _ demo_makedirs_empty, of "''a.jpg''" demo_served "(800, 600)" 512
      "''https://i.imgur.com/a.jpg''" "[]"]
  by (simp add: demo_fetch_512)

end
